theory Spec2Isabelle
  imports Complex_Main "HOL-Library.AList"
begin

section \<open>Support and resistance zone detection (\<open>findSupportLevels\<close>, aggregated revision)\<close>

text \<open>
  The embedding follows the second (aggregating) revision of \<open>findSupportLevels\<close> in
  \<^verbatim>\<open>src/supportFunction.v1.js\<close>.

  Numbers. A price is a JavaScript number; the model takes it as a rational number and
  computes exactly. The constants \<open>0.01\<close>, \<open>0.03\<close>, \<open>0.05\<close>, \<open>0.1\<close>, \<open>0.5\<close> are the
  exact decimal fractions. The IEEE values that are not rationals (\<open>NaN\<close>, the
  infinities, negative zero) are not inputs of the model, and rounding of intermediate
  results is not modelled. A division whose divisor is zero is modelled as JavaScript
  computes it: it yields an infinity or \<open>NaN\<close>, and a comparison with \<open>NaN\<close> is false.
\<close>

subsection \<open>Numbers: division and comparison\<close>

datatype jsnum = Fin rat | PosInf | NegInf | NaN

text \<open>\<open>a / b\<close> for finite \<open>a\<close> and \<open>b\<close>, the zero divisor being \<open>+0\<close>.\<close>

definition js_div :: "rat \<Rightarrow> rat \<Rightarrow> jsnum" where
  "js_div a b =
     (if b \<noteq> 0 then Fin (a / b)
      else if 0 < a then PosInf
      else if a < 0 then NegInf
      else NaN)"

text \<open>\<open>x <= c\<close>, \<open>x < c\<close> and \<open>x >= c\<close> for a finite constant \<open>c\<close>.\<close>

definition js_le :: "jsnum \<Rightarrow> rat \<Rightarrow> bool" where
  "js_le x c = (case x of Fin v \<Rightarrow> v \<le> c | NegInf \<Rightarrow> True | PosInf \<Rightarrow> False | NaN \<Rightarrow> False)"

definition js_lt :: "jsnum \<Rightarrow> rat \<Rightarrow> bool" where
  "js_lt x c = (case x of Fin v \<Rightarrow> v < c | NegInf \<Rightarrow> True | PosInf \<Rightarrow> False | NaN \<Rightarrow> False)"

definition js_ge :: "jsnum \<Rightarrow> rat \<Rightarrow> bool" where
  "js_ge x c = (case x of Fin v \<Rightarrow> c \<le> v | PosInf \<Rightarrow> True | NegInf \<Rightarrow> False | NaN \<Rightarrow> False)"

subsection \<open>Canonical price strings: \<open>toFixed(2)\<close> and \<open>parseFloat\<close>\<close>

definition digit :: "int \<Rightarrow> char" where
  "digit d = ''0123456789'' ! nat d"

function digits :: "int \<Rightarrow> string" where
  "digits n = (if n < 10 then [digit n] else digits (n div 10) @ [digit (n mod 10)])"
  by pat_completeness auto
termination
  by (relation "measure nat") auto

declare digits.simps [simp del]

text \<open>
  \<open>Number.prototype.toFixed\<close> with two fraction digits: the sign, then the integer \<open>n\<close>
  nearest to \<open>100 * |x|\<close> (the larger one on a tie) written in decimal with a point before
  its last two digits. (For \<open>|x| \<ge> 10^21\<close> JavaScript switches to exponent notation,
  which is outside the model.)
\<close>

definition toFixed2 :: "rat \<Rightarrow> string" where
  "toFixed2 x =
     (let n = round (\<bar>x\<bar> * 100) in
      (if x < 0 then ''-'' else '''') @ digits (n div 100) @ ''.'' @
      [digit (n div 10 mod 10), digit (n mod 10)])"

definition is_digit :: "char \<Rightarrow> bool" where
  "is_digit c = (c \<in> set ''0123456789'')"

definition digit_val :: "char \<Rightarrow> int" where
  "digit_val c = of_char c - 48"

definition parse_int :: "string \<Rightarrow> int" where
  "parse_int s = foldl (\<lambda>a c. 10 * a + digit_val c) 0 s"

text \<open>
  \<open>parseFloat\<close> on the strings the program gives it: an optional minus sign, decimal
  digits, and an optional point followed by decimal digits. The result is the magnitude
  with its sign; \<open>parseFloat("-0.00")\<close> is JavaScript's negative zero, which the overlap
  test below tells apart by the sign character of the string.
\<close>

definition parseFloat :: "string \<Rightarrow> rat" where
  "parseFloat s =
     (let neg = (take 1 s = ''-'');
          t = (if neg then drop 1 s else s);
          ip = takeWhile is_digit t;
          rest = dropWhile is_digit t;
          fp = (if take 1 rest = ''.'' then takeWhile is_digit (drop 1 rest) else []);
          v = of_int (parse_int ip) + of_int (parse_int fp) / 10 ^ length fp
      in if neg then - v else v)"

subsection \<open>Data model\<close>

record price_obs =
  lp :: rat

record support_zone =
  zone :: string
  bounceCount :: nat
  confirmedResistance :: bool

record resistance_zone =
  rzone :: string
  dropCount :: nat

record overlap_zone =
  hzone :: string
  supportBounceCount :: nat
  resistanceDropCount :: nat
  type_tag :: string

record scan_state =
  supportZones :: "support_zone list"
  resistanceZones :: "resistance_zone list"
  checkedSupports :: "rat list"
  checkedResistances :: "rat list"

record zones_result =
  out_supportZones :: "support_zone list"
  out_resistanceZones :: "resistance_zone list"
  out_highlightedZones :: "overlap_zone list"

datatype error = TypeError

subsection \<open>Helper \<open>trendLineMatch\<close>\<close>

definition expected_price :: "rat \<Rightarrow> string \<Rightarrow> nat \<Rightarrow> rat" where
  "expected_price base_lp ty d =
     (if ty = ''support'' then base_lp - base_lp * (1 / 100) * of_nat d
      else base_lp + base_lp * (1 / 100) * of_nat d)"

definition trend_hit :: "price_obs list \<Rightarrow> nat \<Rightarrow> string \<Rightarrow> nat \<Rightarrow> bool" where
  "trend_hit priceData baseIndex ty i =
     (let expected = expected_price (lp (priceData ! baseIndex)) ty (i - baseIndex);
          actual = lp (priceData ! i)
      in js_le (js_div \<bar>actual - expected\<bar> expected) (3 / 100))"

definition trendLineCount :: "price_obs list \<Rightarrow> nat \<Rightarrow> nat \<Rightarrow> string \<Rightarrow> nat" where
  "trendLineCount priceData baseIndex rng ty =
     fold (\<lambda>i count. if trend_hit priceData baseIndex ty i then count + 1 else count)
       [baseIndex + 1 ..< min (baseIndex + rng) (length priceData)] 0"

definition trendLineMatch :: "price_obs list \<Rightarrow> nat \<Rightarrow> nat \<Rightarrow> string \<Rightarrow> bool" where
  "trendLineMatch priceData baseIndex rng ty = (3 \<le> trendLineCount priceData baseIndex rng ty)"

subsection \<open>Helper \<open>actedAsResistanceBefore\<close>\<close>

definition actedAsResistanceBefore :: "price_obs list \<Rightarrow> nat \<Rightarrow> rat \<Rightarrow> bool" where
  "actedAsResistanceBefore priceData index price =
     list_ex (\<lambda>i.
        let prevPrice = lp (priceData ! i) in
        js_le (js_div \<bar>prevPrice - price\<bar> price) (5 / 100) \<and>
        list_ex (\<lambda>j.
           let dropPrice = lp (priceData ! j) in
           js_ge (js_div (prevPrice - dropPrice) prevPrice) (1 / 10))
          [i + 1 ..< index])
       [0 ..< index]"

subsection \<open>Main loop\<close>

definition near_level :: "price_obs list \<Rightarrow> rat \<Rightarrow> nat \<Rightarrow> bool" where
  "near_level priceData basePrice j =
     js_le (js_div \<bar>lp (priceData ! j) - basePrice\<bar> basePrice) (5 / 100)"

definition is_bounce :: "price_obs list \<Rightarrow> nat \<Rightarrow> nat \<Rightarrow> bool" where
  "is_bounce priceData j k =
     (let bouncePrice = lp (priceData ! k);
          bouncePct = js_div (bouncePrice - lp (priceData ! j)) (lp (priceData ! j))
      in js_ge bouncePct (1 / 10))"

definition is_drop :: "price_obs list \<Rightarrow> nat \<Rightarrow> nat \<Rightarrow> bool" where
  "is_drop priceData j k =
     (let dropPrice = lp (priceData ! k)
      in js_ge (js_div (lp (priceData ! j) - dropPrice) (lp (priceData ! j))) (1 / 10))"

text \<open>The two counting loops over \<open>j\<close>; the inner loop over \<open>k\<close> stops at the first hit.\<close>

definition countBounces :: "price_obs list \<Rightarrow> nat \<Rightarrow> nat" where
  "countBounces priceData i =
     fold (\<lambda>j bounceCount.
        if near_level priceData (lp (priceData ! i)) j then
          (case find (is_bounce priceData j) [j + 1 ..< length priceData] of
             Some k \<Rightarrow> if trendLineMatch priceData i 10 ''support'' then bounceCount + 1
                       else bounceCount
           | None \<Rightarrow> bounceCount)
        else bounceCount)
       [i + 1 ..< length priceData] 0"

definition countDrops :: "price_obs list \<Rightarrow> nat \<Rightarrow> nat" where
  "countDrops priceData i =
     fold (\<lambda>j dropCount.
        if near_level priceData (lp (priceData ! i)) j then
          (case find (is_drop priceData j) [j + 1 ..< length priceData] of
             Some k \<Rightarrow> if trendLineMatch priceData i 10 ''resistance'' then dropCount + 1
                       else dropCount
           | None \<Rightarrow> dropCount)
        else dropCount)
       [i + 1 ..< length priceData] 0"

text \<open>The proximity test against a set of accepted prices, and \<open>Set.add\<close>.\<close>

definition already_checked :: "rat list \<Rightarrow> rat \<Rightarrow> bool" where
  "already_checked checked basePrice =
     list_ex (\<lambda>p. js_lt (js_div \<bar>p - basePrice\<bar> basePrice) (5 / 100)) checked"

definition set_add :: "rat \<Rightarrow> rat list \<Rightarrow> rat list" where
  "set_add p checked = (if p \<in> set checked then checked else checked @ [p])"

definition supportDetection :: "price_obs list \<Rightarrow> nat \<Rightarrow> scan_state \<Rightarrow> scan_state" where
  "supportDetection priceData i st =
     (let basePrice = lp (priceData ! i) in
      if \<not> already_checked (checkedSupports st) basePrice then
        (let bounceCount = countBounces priceData i;
             actedAsRes = actedAsResistanceBefore priceData i basePrice
         in if 3 \<le> bounceCount then
              st\<lparr>supportZones := supportZones st @
                    [\<lparr>zone = toFixed2 basePrice, bounceCount = bounceCount,
                      confirmedResistance = actedAsRes\<rparr>],
                 checkedSupports := set_add basePrice (checkedSupports st)\<rparr>
            else st)
      else st)"

definition resistanceDetection :: "price_obs list \<Rightarrow> nat \<Rightarrow> scan_state \<Rightarrow> scan_state" where
  "resistanceDetection priceData i st =
     (let basePrice = lp (priceData ! i) in
      if \<not> already_checked (checkedResistances st) basePrice then
        (let dropCount = countDrops priceData i
         in if 3 \<le> dropCount then
              st\<lparr>resistanceZones := resistanceZones st @
                    [\<lparr>rzone = toFixed2 basePrice, dropCount = dropCount\<rparr>],
                 checkedResistances := set_add basePrice (checkedResistances st)\<rparr>
            else st)
      else st)"

definition scanStep :: "price_obs list \<Rightarrow> rat \<Rightarrow> nat \<Rightarrow> scan_state \<Rightarrow> scan_state" where
  "scanStep priceData minValidPrice i st =
     (let basePrice = lp (priceData ! i) in
      if basePrice < minValidPrice then st
      else resistanceDetection priceData i (supportDetection priceData i st))"

definition init_state :: scan_state where
  "init_state = \<lparr>supportZones = [], resistanceZones = [],
                 checkedSupports = [], checkedResistances = []\<rparr>"

definition minValidPrice :: "price_obs list \<Rightarrow> rat" where
  "minValidPrice priceData = (let latestPrice = lp (last priceData) in latestPrice * (1 / 2))"

definition scanLevels :: "price_obs list \<Rightarrow> scan_state" where
  "scanLevels priceData =
     fold (scanStep priceData (minValidPrice priceData)) [0 ..< length priceData] init_state"

subsection \<open>Aggregation\<close>

text \<open>
  An object used as a dictionary is an association list in insertion order: the keys are
  \<open>toFixed(2)\<close> strings, never array indices, so \<open>Object.values\<close> lists the values in
  the order the keys were first stored. \<open>Array.prototype.sort\<close> is stable.
\<close>

definition aggregateSupport ::
  "support_zone \<Rightarrow> (string \<times> support_zone) list \<Rightarrow> (string \<times> support_zone) list" where
  "aggregateSupport s m =
     (let z = zone s in
      case map_of m z of
        None \<Rightarrow> AList.update z s m
      | Some _ \<Rightarrow>
          AList.map_entry z
            (\<lambda>a. a\<lparr>bounceCount := bounceCount a + bounceCount s,
                   confirmedResistance := confirmedResistance a \<or> confirmedResistance s\<rparr>) m)"

definition aggregatedSupportZones :: "support_zone list \<Rightarrow> support_zone list" where
  "aggregatedSupportZones raw =
     sort_key (\<lambda>a. parseFloat (zone a)) (map snd (fold aggregateSupport raw []))"

definition aggregateResistance ::
  "resistance_zone \<Rightarrow> (string \<times> resistance_zone) list \<Rightarrow> (string \<times> resistance_zone) list" where
  "aggregateResistance r m =
     (let z = rzone r in
      case map_of m z of
        None \<Rightarrow> AList.update z r m
      | Some _ \<Rightarrow> AList.map_entry z (\<lambda>a. a\<lparr>dropCount := dropCount a + dropCount r\<rparr>) m)"

definition aggregatedResistanceZones :: "resistance_zone list \<Rightarrow> resistance_zone list" where
  "aggregatedResistanceZones raw =
     sort_key (\<lambda>a. parseFloat (rzone a)) (map snd (fold aggregateResistance raw []))"

subsection \<open>Highlighted zones\<close>

text \<open>
  \<open>priceDiff / parseFloat(support.zone) <= 0.05\<close>. The divisor is negative zero when the
  support's string is \<open>-0.00\<close>; dividing by it is dividing the negated difference by \<open>+0\<close>.
\<close>

definition overlaps :: "support_zone \<Rightarrow> resistance_zone \<Rightarrow> bool" where
  "overlaps support resistance =
     (let priceDiff = \<bar>parseFloat (zone support) - parseFloat (rzone resistance)\<bar>;
          sp = parseFloat (zone support);
          ratio = (if sp = 0 \<and> take 1 (zone support) = ''-'' then js_div (- priceDiff) 0
                   else js_div priceDiff sp)
      in js_le ratio (5 / 100))"

definition addHighlight ::
  "support_zone \<Rightarrow> resistance_zone \<Rightarrow> (string \<times> overlap_zone) list \<Rightarrow> (string \<times> overlap_zone) list"
  where
  "addHighlight support resistance th =
     (if overlaps support resistance then
        (let th1 = (case map_of th (zone support) of
                      None \<Rightarrow> AList.update (zone support)
                                \<lparr>hzone = zone support, supportBounceCount = 0,
                                 resistanceDropCount = 0,
                                 type_tag = ''support-resistance overlap''\<rparr> th
                    | Some _ \<Rightarrow> th);
             th2 = AList.map_entry (zone support)
                     (\<lambda>h. h\<lparr>supportBounceCount := supportBounceCount h + bounceCount support\<rparr>) th1
         in AList.map_entry (zone support)
              (\<lambda>h. h\<lparr>resistanceDropCount := resistanceDropCount h + dropCount resistance\<rparr>) th2)
      else th)"

definition tempHighlights ::
  "support_zone list \<Rightarrow> resistance_zone list \<Rightarrow> (string \<times> overlap_zone) list" where
  "tempHighlights supports resistances =
     fold (\<lambda>support th. fold (addHighlight support) resistances th) supports []"

definition highlightedZones :: "support_zone list \<Rightarrow> resistance_zone list \<Rightarrow> overlap_zone list" where
  "highlightedZones supports resistances =
     sort_key (\<lambda>h. parseFloat (hzone h)) (map snd (tempHighlights supports resistances))"

subsection \<open>\<open>findSupportLevels\<close>\<close>

text \<open>
  On the empty array \<open>priceData[priceData.length - 1]\<close> is \<open>undefined\<close> and reading its
  \<open>lp\<close> throws a \<open>TypeError\<close>.
\<close>

definition findSupportLevels :: "price_obs list \<Rightarrow> error + zones_result" where
  "findSupportLevels priceData =
     (if priceData = [] then Inl TypeError
      else
        (let st = scanLevels priceData;
             aggS = aggregatedSupportZones (supportZones st);
             aggR = aggregatedResistanceZones (resistanceZones st)
         in Inr \<lparr>out_supportZones = aggS, out_resistanceZones = aggR,
                 out_highlightedZones = highlightedZones aggS aggR\<rparr>))"

subsection \<open>Definitions used to state the properties\<close>

text \<open>The raw record that the main loop appends for a base index.\<close>

definition supportRecord :: "price_obs list \<Rightarrow> nat \<Rightarrow> support_zone" where
  "supportRecord pd i =
     \<lparr>zone = toFixed2 (lp (pd ! i)), bounceCount = countBounces pd i,
      confirmedResistance = actedAsResistanceBefore pd i (lp (pd ! i))\<rparr>"

definition resistanceRecord :: "price_obs list \<Rightarrow> nat \<Rightarrow> resistance_zone" where
  "resistanceRecord pd i = \<lparr>rzone = toFixed2 (lp (pd ! i)), dropCount = countDrops pd i\<rparr>"

text \<open>
  What holds after the main loop has run over the indices below \<open>m\<close>: the raw records
  are those of an ascending list of accepted base indices, the accepted prices are their
  prices, and no accepted price is close to one accepted after it.
\<close>

definition support_trace :: "price_obs list \<Rightarrow> rat \<Rightarrow> nat \<Rightarrow> nat list \<Rightarrow> scan_state \<Rightarrow> bool" where
  "support_trace pd mv m js st =
     (sorted_wrt (<) js \<and>
      (\<forall>i\<in>set js. i < m \<and> \<not> lp (pd ! i) < mv \<and> 3 \<le> countBounces pd i) \<and>
      (\<forall>i\<in>set js. \<forall>i'\<in>set js. i' < i \<longrightarrow>
          \<not> js_lt (js_div \<bar>lp (pd ! i') - lp (pd ! i)\<bar> (lp (pd ! i))) (5 / 100)) \<and>
      supportZones st = map (supportRecord pd) js \<and>
      set (checkedSupports st) = (\<lambda>i. lp (pd ! i)) ` set js)"

definition resistance_trace :: "price_obs list \<Rightarrow> rat \<Rightarrow> nat \<Rightarrow> nat list \<Rightarrow> scan_state \<Rightarrow> bool" where
  "resistance_trace pd mv m js st =
     (sorted_wrt (<) js \<and>
      (\<forall>i\<in>set js. i < m \<and> \<not> lp (pd ! i) < mv \<and> 3 \<le> countDrops pd i) \<and>
      (\<forall>i\<in>set js. \<forall>i'\<in>set js. i' < i \<longrightarrow>
          \<not> js_lt (js_div \<bar>lp (pd ! i') - lp (pd ! i)\<bar> (lp (pd ! i))) (5 / 100)) \<and>
      resistanceZones st = map (resistanceRecord pd) js \<and>
      set (checkedResistances st) = (\<lambda>i. lp (pd ! i)) ` set js)"

text \<open>
  The merged record of the raw records with a given string, and what holds of the
  dictionary after the aggregation loop has run over \<open>raw\<close>.
\<close>

definition supportGroup :: "support_zone list \<Rightarrow> string \<Rightarrow> support_zone" where
  "supportGroup raw z =
     \<lparr>zone = z,
      bounceCount = sum_list (map bounceCount (filter (\<lambda>s. zone s = z) raw)),
      confirmedResistance = list_ex confirmedResistance (filter (\<lambda>s. zone s = z) raw)\<rparr>"

definition resistanceGroup :: "resistance_zone list \<Rightarrow> string \<Rightarrow> resistance_zone" where
  "resistanceGroup raw z =
     \<lparr>rzone = z, dropCount = sum_list (map dropCount (filter (\<lambda>r. rzone r = z) raw))\<rparr>"

definition support_groups :: "support_zone list \<Rightarrow> (string \<times> support_zone) list \<Rightarrow> bool" where
  "support_groups raw m =
     (distinct (map fst m) \<and> fst ` set m = zone ` set raw \<and>
      (\<forall>(k, a)\<in>set m. a = supportGroup raw k))"

definition resistance_groups ::
  "resistance_zone list \<Rightarrow> (string \<times> resistance_zone) list \<Rightarrow> bool" where
  "resistance_groups raw m =
     (distinct (map fst m) \<and> fst ` set m = rzone ` set raw \<and>
      (\<forall>(k, a)\<in>set m. a = resistanceGroup raw k))"

text \<open>The strings that \<open>toFixed(2)\<close> gives for non-negative numbers.\<close>

definition canonical :: "string \<Rightarrow> bool" where
  "canonical z = (\<exists>x. 0 \<le> x \<and> z = toFixed2 x)"



text \<open>Price series, given by their \<open>lp\<close> values, on which the properties are evaluated.\<close>

definition observations :: "rat list \<Rightarrow> price_obs list" where
  "observations xs = map (\<lambda>x. \<lparr>lp = x\<rparr>) xs"

definition series_A :: "price_obs list" where
  "series_A = observations [100, 99, 98, 97, 110]"

definition series_B :: "price_obs list" where
  "series_B = observations [104, 90, 100, 99, 98, 97, 110]"

definition series_C :: "price_obs list" where
  "series_C = observations [100, 99, 98, 97, 110, 100, 101, 102, 103, 90]"

definition series_D :: "price_obs list" where
  "series_D = observations
     [96 / 1000, 95 / 1000, 95 / 1000, 95 / 1000, 120 / 1000,
      104 / 1000, 103 / 1000, 103 / 1000, 103 / 1000, 114 / 1000]"

section \<open>Properties\<close>

subsection \<open>Division, comparison and counting loops\<close>

lemma js_le_div [simp]: "b \<noteq> 0 \<Longrightarrow> js_le (js_div a b) c = (a / b \<le> c)"
  by (simp add: js_le_def js_div_def)

lemma js_lt_div [simp]: "b \<noteq> 0 \<Longrightarrow> js_lt (js_div a b) c = (a / b < c)"
  by (simp add: js_lt_def js_div_def)

lemma js_ge_div [simp]: "b \<noteq> 0 \<Longrightarrow> js_ge (js_div a b) c = (c \<le> a / b)"
  by (simp add: js_ge_def js_div_def)

lemma fold_count:
  "fold (\<lambda>i c. if P i then c + 1 else c) xs (c0::nat) = c0 + length (filter P xs)"
  by (induction xs arbitrary: c0) auto

lemma count_upt: "length (filter P [a..<b]) = card {i. a \<le> i \<and> i < b \<and> P i}"
proof -
  have "distinct (filter P [a..<b])" by simp
  then have "length (filter P [a..<b]) = card (set (filter P [a..<b]))"
    by (simp only: distinct_card)
  also have "set (filter P [a..<b]) = {i. a \<le> i \<and> i < b \<and> P i}" by auto
  finally show ?thesis .
qed

subsection \<open>The trend validator\<close>


lemma trendLineCount_le: "trendLineCount pd b rng ty \<le> length pd - Suc b"
proof -
  have "length (filter (trend_hit pd b ty) [b + 1 ..< min (b + rng) (length pd)])
        \<le> length [b + 1 ..< min (b + rng) (length pd)]"
    by (rule length_filter_le)
  then show ?thesis by (simp add: trendLineCount_def fold_count)
qed


text \<open>
  C3, as stated: with fewer than 4 observations after the base index the validator
  answers false. It does not: the series 100, 99, 98, 97 has 3 observations after index
  0, all three on the declining trend line, and the validator answers true.
\<close>

theorem trendLineMatch_three_after_counterexample:
  "length (observations [100, 99, 98, 97]) - (0 + 1) < 4 \<and>
   trendLineMatch (observations [100, 99, 98, 97]) 0 10 ''support''"
  by code_simp

text \<open>
  C3, amended: with fewer than 3 observations after the base index (the series has at
  most \<open>baseIndex + 3\<close> elements) the validator answers false, for every range and
  direction.
\<close>

theorem trendLineMatch_short_tail:
  "length priceData \<le> baseIndex + 3 \<Longrightarrow> \<not> trendLineMatch priceData baseIndex rng ty"
  using trendLineCount_le [of priceData baseIndex rng ty]
  by (simp add: trendLineMatch_def)

theorem trendLineMatch_short_tail_witness:
  "length (observations [100, 99, 98]) \<le> 0 + 3 \<and>
   \<not> trendLineMatch (observations [100, 99, 98]) 0 10 ''support''"
  using trendLineMatch_short_tail [of "observations [100, 99, 98]" 0 10 "''support''"]
  by (simp add: observations_def)

lemma find_case:
  "(case find P xs of Some k \<Rightarrow> a | None \<Rightarrow> b) = (if \<exists>x\<in>set xs. P x then a else b)"
proof (cases "find P xs")
  case None
  then have "\<not> (\<exists>x\<in>set xs. P x)" by (auto simp: find_None_iff)
  with None show ?thesis by simp
next
  case (Some a)
  then have "find P xs \<noteq> None" by simp
  then have "\<exists>x\<in>set xs. P x" by (auto simp: find_None_iff)
  with Some show ?thesis by simp
qed

lemma countBounces_card:
  "countBounces pd i =
     (if trendLineMatch pd i 10 ''support''
      then card {j. i < j \<and> j < length pd \<and> near_level pd (lp (pd ! i)) j \<and>
                    (\<exists>k. j < k \<and> k < length pd \<and> is_bounce pd j k)}
      else 0)"
proof -
  let ?Q = "\<lambda>j. near_level pd (lp (pd ! i)) j \<and>
                 (\<exists>k\<in>set [j + 1 ..< length pd]. is_bounce pd j k) \<and>
                 trendLineMatch pd i 10 ''support''"
  have "countBounces pd i = fold (\<lambda>j c. if ?Q j then c + 1 else c) [i + 1 ..< length pd] 0"
    unfolding countBounces_def find_case
    by (rule arg_cong [where f = "\<lambda>f. fold f [i + 1 ..< length pd] 0"]) (auto simp: fun_eq_iff)
  also have "\<dots> = card {j. i + 1 \<le> j \<and> j < length pd \<and> ?Q j}"
    by (simp only: fold_count count_upt add_0)
  finally have eq: "countBounces pd i = card {j. i + 1 \<le> j \<and> j < length pd \<and> ?Q j}" .
  show ?thesis
  proof (cases "trendLineMatch pd i 10 ''support''")
    case True
    have "{j. i + 1 \<le> j \<and> j < length pd \<and> ?Q j} =
          {j. i < j \<and> j < length pd \<and> near_level pd (lp (pd ! i)) j \<and>
              (\<exists>k. j < k \<and> k < length pd \<and> is_bounce pd j k)}"
      using True by (auto simp: Suc_le_eq)
    with eq True show ?thesis by simp
  next
    case False
    then have "{j. i + 1 \<le> j \<and> j < length pd \<and> ?Q j} = {}" by auto
    with eq False show ?thesis by simp
  qed
qed

lemma countDrops_card:
  "countDrops pd i =
     (if trendLineMatch pd i 10 ''resistance''
      then card {j. i < j \<and> j < length pd \<and> near_level pd (lp (pd ! i)) j \<and>
                    (\<exists>k. j < k \<and> k < length pd \<and> is_drop pd j k)}
      else 0)"
proof -
  let ?Q = "\<lambda>j. near_level pd (lp (pd ! i)) j \<and>
                 (\<exists>k\<in>set [j + 1 ..< length pd]. is_drop pd j k) \<and>
                 trendLineMatch pd i 10 ''resistance''"
  have "countDrops pd i = fold (\<lambda>j c. if ?Q j then c + 1 else c) [i + 1 ..< length pd] 0"
    unfolding countDrops_def find_case
    by (rule arg_cong [where f = "\<lambda>f. fold f [i + 1 ..< length pd] 0"]) (auto simp: fun_eq_iff)
  also have "\<dots> = card {j. i + 1 \<le> j \<and> j < length pd \<and> ?Q j}"
    by (simp only: fold_count count_upt add_0)
  finally have eq: "countDrops pd i = card {j. i + 1 \<le> j \<and> j < length pd \<and> ?Q j}" .
  show ?thesis
  proof (cases "trendLineMatch pd i 10 ''resistance''")
    case True
    have "{j. i + 1 \<le> j \<and> j < length pd \<and> ?Q j} =
          {j. i < j \<and> j < length pd \<and> near_level pd (lp (pd ! i)) j \<and>
              (\<exists>k. j < k \<and> k < length pd \<and> is_drop pd j k)}"
      using True by (auto simp: Suc_le_eq)
    with eq True show ?thesis by simp
  next
    case False
    then have "{j. i + 1 \<le> j \<and> j < length pd \<and> ?Q j} = {}" by auto
    with eq False show ?thesis by simp
  qed
qed

text \<open>A touch that is followed by a reversal is neither the last observation nor the base.\<close>

lemma reversal_card_le:
  "card {j. i < j \<and> j < n \<and> P j \<and> (\<exists>k. j < k \<and> k < n \<and> R j k)} \<le> n - (i + 2)"
proof -
  have "{j. i < j \<and> j < n \<and> P j \<and> (\<exists>k. j < k \<and> k < n \<and> R j k)} \<subseteq> {i + 1 ..< n - 1}"
    by auto
  then have "card {j. i < j \<and> j < n \<and> P j \<and> (\<exists>k. j < k \<and> k < n \<and> R j k)}
             \<le> card {i + 1 ..< n - 1}"
    by (rule card_mono [rotated]) simp
  then show ?thesis by simp
qed

lemma countBounces_le: "countBounces pd i \<le> length pd - (i + 2)"
  using reversal_card_le [of i "length pd" "near_level pd (lp (pd ! i))" "is_bounce pd"]
  by (simp add: countBounces_card)

lemma countDrops_le: "countDrops pd i \<le> length pd - (i + 2)"
  using reversal_card_le [of i "length pd" "near_level pd (lp (pd ! i))" "is_drop pd"]
  by (simp add: countDrops_card)



subsection \<open>One iteration of the main loop\<close>

lemma supportDetection_fields:
  "supportZones (supportDetection pd i st) =
     supportZones st @
       (if \<not> already_checked (checkedSupports st) (lp (pd ! i)) \<and> 3 \<le> countBounces pd i
        then [supportRecord pd i] else [])"
  "checkedSupports (supportDetection pd i st) =
     (if \<not> already_checked (checkedSupports st) (lp (pd ! i)) \<and> 3 \<le> countBounces pd i
      then set_add (lp (pd ! i)) (checkedSupports st) else checkedSupports st)"
  "resistanceZones (supportDetection pd i st) = resistanceZones st"
  "checkedResistances (supportDetection pd i st) = checkedResistances st"
  by (simp_all add: supportDetection_def supportRecord_def Let_def)

lemma resistanceDetection_fields:
  "resistanceZones (resistanceDetection pd i st) =
     resistanceZones st @
       (if \<not> already_checked (checkedResistances st) (lp (pd ! i)) \<and> 3 \<le> countDrops pd i
        then [resistanceRecord pd i] else [])"
  "checkedResistances (resistanceDetection pd i st) =
     (if \<not> already_checked (checkedResistances st) (lp (pd ! i)) \<and> 3 \<le> countDrops pd i
      then set_add (lp (pd ! i)) (checkedResistances st) else checkedResistances st)"
  "supportZones (resistanceDetection pd i st) = supportZones st"
  "checkedSupports (resistanceDetection pd i st) = checkedSupports st"
  by (simp_all add: resistanceDetection_def resistanceRecord_def Let_def)

lemma scanStep_fields:
  "supportZones (scanStep pd mv i st) =
     supportZones st @
       (if \<not> lp (pd ! i) < mv \<and> \<not> already_checked (checkedSupports st) (lp (pd ! i)) \<and>
           3 \<le> countBounces pd i
        then [supportRecord pd i] else [])"
  "checkedSupports (scanStep pd mv i st) =
     (if \<not> lp (pd ! i) < mv \<and> \<not> already_checked (checkedSupports st) (lp (pd ! i)) \<and>
         3 \<le> countBounces pd i
      then set_add (lp (pd ! i)) (checkedSupports st) else checkedSupports st)"
  "resistanceZones (scanStep pd mv i st) =
     resistanceZones st @
       (if \<not> lp (pd ! i) < mv \<and> \<not> already_checked (checkedResistances st) (lp (pd ! i)) \<and>
           3 \<le> countDrops pd i
        then [resistanceRecord pd i] else [])"
  "checkedResistances (scanStep pd mv i st) =
     (if \<not> lp (pd ! i) < mv \<and> \<not> already_checked (checkedResistances st) (lp (pd ! i)) \<and>
         3 \<le> countDrops pd i
      then set_add (lp (pd ! i)) (checkedResistances st) else checkedResistances st)"
  by (simp_all add: scanStep_def Let_def supportDetection_fields resistanceDetection_fields)

lemma set_set_add [simp]: "set (set_add p xs) = insert p (set xs)"
  by (auto simp: set_add_def)

lemma already_checked_iff:
  "already_checked checked b = (\<exists>p\<in>set checked. js_lt (js_div \<bar>p - b\<bar> b) (5 / 100))"
  by (simp add: already_checked_def list_ex_iff)

lemma support_trace_step:
  assumes "support_trace pd mv m js st"
  shows "\<exists>js'. support_trace pd mv (Suc m) js' (scanStep pd mv m st)"
proof (cases "\<not> lp (pd ! m) < mv \<and> \<not> already_checked (checkedSupports st) (lp (pd ! m)) \<and>
              3 \<le> countBounces pd m")
  case False
  then have "supportZones (scanStep pd mv m st) = supportZones st"
    and "checkedSupports (scanStep pd mv m st) = checkedSupports st"
    by (auto simp: scanStep_fields)
  with assms have "support_trace pd mv (Suc m) js (scanStep pd mv m st)"
    by (auto simp: support_trace_def less_Suc_eq)
  then show ?thesis ..
next
  case True
  then have z: "supportZones (scanStep pd mv m st) = supportZones st @ [supportRecord pd m]"
    and c: "checkedSupports (scanStep pd mv m st) = set_add (lp (pd ! m)) (checkedSupports st)"
    by (simp_all add: scanStep_fields)
  from assms have lt: "\<forall>i\<in>set js. i < m" by (simp add: support_trace_def)
  from True assms have far: "\<forall>i'\<in>set js.
      \<not> js_lt (js_div \<bar>lp (pd ! i') - lp (pd ! m)\<bar> (lp (pd ! m))) (5 / 100)"
    by (auto simp: already_checked_iff support_trace_def)
  have "support_trace pd mv (Suc m) (js @ [m]) (scanStep pd mv m st)"
    unfolding support_trace_def
  proof (intro conjI)
    show "sorted_wrt (<) (js @ [m])"
      using assms lt by (simp add: sorted_wrt_append support_trace_def)
    show "\<forall>i\<in>set (js @ [m]). i < Suc m \<and> \<not> lp (pd ! i) < mv \<and> 3 \<le> countBounces pd i"
      using assms True by (auto simp: support_trace_def less_Suc_eq)
    show "\<forall>i\<in>set (js @ [m]). \<forall>i'\<in>set (js @ [m]). i' < i \<longrightarrow>
            \<not> js_lt (js_div \<bar>lp (pd ! i') - lp (pd ! i)\<bar> (lp (pd ! i))) (5 / 100)"
      using assms far lt by (auto simp: support_trace_def)
    show "supportZones (scanStep pd mv m st) = map (supportRecord pd) (js @ [m])"
      using assms z by (simp add: support_trace_def)
    show "set (checkedSupports (scanStep pd mv m st)) = (\<lambda>i. lp (pd ! i)) ` set (js @ [m])"
      using assms c by (simp add: support_trace_def)
  qed
  then show ?thesis ..
qed

lemma resistance_trace_step:
  assumes "resistance_trace pd mv m js st"
  shows "\<exists>js'. resistance_trace pd mv (Suc m) js' (scanStep pd mv m st)"
proof (cases "\<not> lp (pd ! m) < mv \<and> \<not> already_checked (checkedResistances st) (lp (pd ! m)) \<and>
              3 \<le> countDrops pd m")
  case False
  then have "resistanceZones (scanStep pd mv m st) = resistanceZones st"
    and "checkedResistances (scanStep pd mv m st) = checkedResistances st"
    by (auto simp: scanStep_fields)
  with assms have "resistance_trace pd mv (Suc m) js (scanStep pd mv m st)"
    by (auto simp: resistance_trace_def less_Suc_eq)
  then show ?thesis ..
next
  case True
  then have z: "resistanceZones (scanStep pd mv m st) =
                resistanceZones st @ [resistanceRecord pd m]"
    and c: "checkedResistances (scanStep pd mv m st) =
            set_add (lp (pd ! m)) (checkedResistances st)"
    by (simp_all add: scanStep_fields)
  from assms have lt: "\<forall>i\<in>set js. i < m" by (simp add: resistance_trace_def)
  from True assms have far: "\<forall>i'\<in>set js.
      \<not> js_lt (js_div \<bar>lp (pd ! i') - lp (pd ! m)\<bar> (lp (pd ! m))) (5 / 100)"
    by (auto simp: already_checked_iff resistance_trace_def)
  have "resistance_trace pd mv (Suc m) (js @ [m]) (scanStep pd mv m st)"
    unfolding resistance_trace_def
  proof (intro conjI)
    show "sorted_wrt (<) (js @ [m])"
      using assms lt by (simp add: sorted_wrt_append resistance_trace_def)
    show "\<forall>i\<in>set (js @ [m]). i < Suc m \<and> \<not> lp (pd ! i) < mv \<and> 3 \<le> countDrops pd i"
      using assms True by (auto simp: resistance_trace_def less_Suc_eq)
    show "\<forall>i\<in>set (js @ [m]). \<forall>i'\<in>set (js @ [m]). i' < i \<longrightarrow>
            \<not> js_lt (js_div \<bar>lp (pd ! i') - lp (pd ! i)\<bar> (lp (pd ! i))) (5 / 100)"
      using assms far lt by (auto simp: resistance_trace_def)
    show "resistanceZones (scanStep pd mv m st) = map (resistanceRecord pd) (js @ [m])"
      using assms z by (simp add: resistance_trace_def)
    show "set (checkedResistances (scanStep pd mv m st)) =
          (\<lambda>i. lp (pd ! i)) ` set (js @ [m])"
      using assms c by (simp add: resistance_trace_def)
  qed
  then show ?thesis ..
qed

lemma support_trace_fold:
  "\<exists>js. support_trace pd mv m js (fold (scanStep pd mv) [0 ..< m] init_state)"
proof (induction m)
  case 0
  have "support_trace pd mv 0 [] init_state"
    by (simp add: support_trace_def init_state_def)
  then show ?case by auto
next
  case (Suc m)
  then obtain js where "support_trace pd mv m js (fold (scanStep pd mv) [0 ..< m] init_state)" ..
  from support_trace_step [OF this] show ?case by simp
qed

lemma resistance_trace_fold:
  "\<exists>js. resistance_trace pd mv m js (fold (scanStep pd mv) [0 ..< m] init_state)"
proof (induction m)
  case 0
  have "resistance_trace pd mv 0 [] init_state"
    by (simp add: resistance_trace_def init_state_def)
  then show ?case by auto
next
  case (Suc m)
  then obtain js where
    "resistance_trace pd mv m js (fold (scanStep pd mv) [0 ..< m] init_state)" ..
  from resistance_trace_step [OF this] show ?case by simp
qed

lemma scanLevels_support_trace:
  "\<exists>js. support_trace pd (minValidPrice pd) (length pd) js (scanLevels pd)"
  unfolding scanLevels_def by (rule support_trace_fold)

lemma scanLevels_resistance_trace:
  "\<exists>js. resistance_trace pd (minValidPrice pd) (length pd) js (scanLevels pd)"
  unfolding scanLevels_def by (rule resistance_trace_fold)

lemma update_fresh: "k \<notin> fst ` set m \<Longrightarrow> AList.update k v m = m @ [(k, v)]"
  by (induction m) auto

lemma map_entry_fresh: "k \<notin> fst ` set m \<Longrightarrow> AList.map_entry k f m = m"
  by (induction m) auto

lemma map_entry_set:
  "distinct (map fst m) \<Longrightarrow>
   set (AList.map_entry k f m) = (\<lambda>(k', v). if k' = k then (k', f v) else (k', v)) ` set m"
proof (induction m)
  case Nil
  then show ?case by simp
next
  case (Cons p ps)
  show ?case
  proof (cases "fst p = k")
    case True
    with Cons.prems have "k \<notin> fst ` set ps" by auto
    then have "(\<lambda>(k', v). if k' = k then (k', f v) else (k', v)) ` set ps = set ps"
      by (force simp: image_iff split: prod.splits)
    with True show ?thesis by (cases p) auto
  next
    case False
    with Cons show ?thesis by (cases p) auto
  qed
qed

lemma map_entry_keys: "map fst (AList.map_entry k f m) = map fst m"
  by (induction m) auto

lemma supportGroup_snoc:
  "supportGroup (raw @ [s]) k =
     (if zone s = k
      then (supportGroup raw k)
             \<lparr>bounceCount := bounceCount (supportGroup raw k) + bounceCount s,
              confirmedResistance := confirmedResistance (supportGroup raw k) \<or> confirmedResistance s\<rparr>
      else supportGroup raw k)"
  by (auto simp: supportGroup_def list_ex_iff)

lemma supportGroup_fresh: "zone s \<notin> zone ` set raw \<Longrightarrow> supportGroup (raw @ [s]) (zone s) = s"
proof -
  assume "zone s \<notin> zone ` set raw"
  then have "\<forall>x\<in>set raw. zone x \<noteq> zone s"
    by (metis image_eqI)
  then have "filter (\<lambda>x. zone x = zone s) raw = []"
    by (simp add: filter_empty_conv)
  then show ?thesis by (simp add: supportGroup_def)
qed

lemma aggregateSupport_fresh:
  "zone s \<notin> fst ` set m \<Longrightarrow> aggregateSupport s m = m @ [(zone s, s)]"
  by (simp add: aggregateSupport_def update_fresh map_of_eq_None_iff [THEN iffD2])

lemma support_groups_step:
  assumes "support_groups raw m"
  shows "support_groups (raw @ [s]) (aggregateSupport s m)"
proof (cases "map_of m (zone s)")
  case None
  then have fresh: "zone s \<notin> fst ` set m" by (simp add: map_of_eq_None_iff)
  then have m': "aggregateSupport s m = m @ [(zone s, s)]"
    by (rule aggregateSupport_fresh)
  from fresh assms have fresh': "zone s \<notin> zone ` set raw" by (simp add: support_groups_def)
  show ?thesis
    unfolding support_groups_def m'
  proof (intro conjI)
    show "distinct (map fst (m @ [(zone s, s)]))"
      using assms fresh by (simp add: support_groups_def)
    show "fst ` set (m @ [(zone s, s)]) = zone ` set (raw @ [s])"
      using assms by (auto simp: support_groups_def)
    show "\<forall>(k, a)\<in>set (m @ [(zone s, s)]). a = supportGroup (raw @ [s]) k"
    proof (clarify)
      fix k a assume "(k, a) \<in> set (m @ [(zone s, s)])"
      then consider "(k, a) \<in> set m" | "k = zone s" "a = s" by auto
      then show "a = supportGroup (raw @ [s]) k"
      proof cases
        case 1
        with fresh have "k \<noteq> zone s" by force
        moreover from 1 assms have "a = supportGroup raw k" by (auto simp: support_groups_def)
        ultimately show ?thesis by (simp add: supportGroup_snoc)
      next
        case 2
        with fresh' show ?thesis by (simp add: supportGroup_fresh)
      qed
    qed
  qed
next
  case (Some a0)
  let ?f = "\<lambda>a. a\<lparr>bounceCount := bounceCount a + bounceCount s,
                    confirmedResistance := confirmedResistance a \<or> confirmedResistance s\<rparr>"
  from Some have m': "aggregateSupport s m = AList.map_entry (zone s) ?f m"
    by (simp add: aggregateSupport_def)
  from assms have d: "distinct (map fst m)" by (simp add: support_groups_def)
  from Some have "(zone s, a0) \<in> set m" by (rule map_of_SomeD)
  then have present: "zone s \<in> fst ` set m" by force
  show ?thesis
    unfolding support_groups_def m'
  proof (intro conjI)
    show "distinct (map fst (AList.map_entry (zone s) ?f m))"
      using d by (simp add: map_entry_keys)
    have "fst ` set (AList.map_entry (zone s) ?f m) = fst ` set m"
      by (rule AList.dom_map_entry)
    with present assms show "fst ` set (AList.map_entry (zone s) ?f m) = zone ` set (raw @ [s])"
      by (auto simp: support_groups_def)
    show "\<forall>(k, a)\<in>set (AList.map_entry (zone s) ?f m). a = supportGroup (raw @ [s]) k"
    proof (clarify)
      fix k a assume "(k, a) \<in> set (AList.map_entry (zone s) ?f m)"
      then obtain v where v: "(k, v) \<in> set m" and a: "a = (if k = zone s then ?f v else v)"
        by (auto simp: map_entry_set [OF d] split: if_splits)
      from v assms have "v = supportGroup raw k" by (auto simp: support_groups_def)
      with a show "a = supportGroup (raw @ [s]) k"
        by (auto simp: supportGroup_snoc)
    qed
  qed
qed

lemma support_groups_fold: "support_groups raw (fold aggregateSupport raw [])"
proof (induction raw rule: rev_induct)
  case Nil
  show ?case by (simp add: support_groups_def)
next
  case (snoc s raw)
  then show ?case by (simp add: support_groups_step)
qed

lemma aggregateSupport_zone:
  "support_groups raw m \<Longrightarrow> map zone (map snd m) = map fst m"
  by (auto simp: support_groups_def supportGroup_def)

lemma fold_aggregateSupport_distinct:
  "distinct (map zone raw) \<Longrightarrow> fold aggregateSupport raw [] = map (\<lambda>s. (zone s, s)) raw"
proof (induction raw rule: rev_induct)
  case Nil
  show ?case by simp
next
  case (snoc s raw)
  then have IH: "fold aggregateSupport raw [] = map (\<lambda>s. (zone s, s)) raw" by simp
  from snoc.prems have "zone s \<notin> fst ` set (map (\<lambda>s. (zone s, s)) raw)" by (auto simp: image_iff)
  then have "aggregateSupport s (map (\<lambda>s. (zone s, s)) raw) =
             map (\<lambda>s. (zone s, s)) raw @ [(zone s, s)]"
    by (rule aggregateSupport_fresh)
  then show ?case by (simp add: IH)
qed

lemma resistanceGroup_snoc:
  "resistanceGroup (raw @ [r]) k =
     (if rzone r = k
      then (resistanceGroup raw k)\<lparr>dropCount := dropCount (resistanceGroup raw k) + dropCount r\<rparr>
      else resistanceGroup raw k)"
  by (auto simp: resistanceGroup_def)

lemma resistanceGroup_fresh:
  "rzone r \<notin> rzone ` set raw \<Longrightarrow> resistanceGroup (raw @ [r]) (rzone r) = r"
proof -
  assume "rzone r \<notin> rzone ` set raw"
  then have "\<forall>x\<in>set raw. rzone x \<noteq> rzone r"
    by (metis image_eqI)
  then have "filter (\<lambda>x. rzone x = rzone r) raw = []"
    by (simp add: filter_empty_conv)
  then show ?thesis by (simp add: resistanceGroup_def)
qed

lemma aggregateResistance_fresh:
  "rzone r \<notin> fst ` set m \<Longrightarrow> aggregateResistance r m = m @ [(rzone r, r)]"
  by (simp add: aggregateResistance_def update_fresh map_of_eq_None_iff [THEN iffD2])

lemma resistance_groups_step:
  assumes "resistance_groups raw m"
  shows "resistance_groups (raw @ [r]) (aggregateResistance r m)"
proof (cases "map_of m (rzone r)")
  case None
  then have fresh: "rzone r \<notin> fst ` set m" by (simp add: map_of_eq_None_iff)
  then have m': "aggregateResistance r m = m @ [(rzone r, r)]"
    by (rule aggregateResistance_fresh)
  from fresh assms have fresh': "rzone r \<notin> rzone ` set raw" by (simp add: resistance_groups_def)
  show ?thesis
    unfolding resistance_groups_def m'
  proof (intro conjI)
    show "distinct (map fst (m @ [(rzone r, r)]))"
      using assms fresh by (simp add: resistance_groups_def)
    show "fst ` set (m @ [(rzone r, r)]) = rzone ` set (raw @ [r])"
      using assms by (auto simp: resistance_groups_def)
    show "\<forall>(k, a)\<in>set (m @ [(rzone r, r)]). a = resistanceGroup (raw @ [r]) k"
    proof (clarify)
      fix k a assume "(k, a) \<in> set (m @ [(rzone r, r)])"
      then consider "(k, a) \<in> set m" | "k = rzone r" "a = r" by auto
      then show "a = resistanceGroup (raw @ [r]) k"
      proof cases
        case 1
        with fresh have "k \<noteq> rzone r" by force
        moreover from 1 assms have "a = resistanceGroup raw k"
          by (auto simp: resistance_groups_def)
        ultimately show ?thesis by (simp add: resistanceGroup_snoc)
      next
        case 2
        with fresh' show ?thesis by (simp add: resistanceGroup_fresh)
      qed
    qed
  qed
next
  case (Some a0)
  let ?f = "\<lambda>a. a\<lparr>dropCount := dropCount a + dropCount r\<rparr>"
  from Some have m': "aggregateResistance r m = AList.map_entry (rzone r) ?f m"
    by (simp add: aggregateResistance_def)
  from assms have d: "distinct (map fst m)" by (simp add: resistance_groups_def)
  from Some have "(rzone r, a0) \<in> set m" by (rule map_of_SomeD)
  then have present: "rzone r \<in> fst ` set m" by force
  show ?thesis
    unfolding resistance_groups_def m'
  proof (intro conjI)
    show "distinct (map fst (AList.map_entry (rzone r) ?f m))"
      using d by (simp add: map_entry_keys)
    have "fst ` set (AList.map_entry (rzone r) ?f m) = fst ` set m"
      by (rule AList.dom_map_entry)
    with present assms
    show "fst ` set (AList.map_entry (rzone r) ?f m) = rzone ` set (raw @ [r])"
      by (auto simp: resistance_groups_def)
    show "\<forall>(k, a)\<in>set (AList.map_entry (rzone r) ?f m). a = resistanceGroup (raw @ [r]) k"
    proof (clarify)
      fix k a assume "(k, a) \<in> set (AList.map_entry (rzone r) ?f m)"
      then obtain v where v: "(k, v) \<in> set m" and a: "a = (if k = rzone r then ?f v else v)"
        by (auto simp: map_entry_set [OF d] split: if_splits)
      from v assms have "v = resistanceGroup raw k" by (auto simp: resistance_groups_def)
      with a show "a = resistanceGroup (raw @ [r]) k"
        by (auto simp: resistanceGroup_snoc)
    qed
  qed
qed

lemma resistance_groups_fold: "resistance_groups raw (fold aggregateResistance raw [])"
proof (induction raw rule: rev_induct)
  case Nil
  show ?case by (simp add: resistance_groups_def)
next
  case (snoc r raw)
  then show ?case by (simp add: resistance_groups_step)
qed

lemma fold_aggregateResistance_distinct:
  "distinct (map rzone raw) \<Longrightarrow> fold aggregateResistance raw [] = map (\<lambda>r. (rzone r, r)) raw"
proof (induction raw rule: rev_induct)
  case Nil
  show ?case by simp
next
  case (snoc r raw)
  then have IH: "fold aggregateResistance raw [] = map (\<lambda>r. (rzone r, r)) raw" by simp
  from snoc.prems have "rzone r \<notin> fst ` set (map (\<lambda>r. (rzone r, r)) raw)"
    by (auto simp: image_iff)
  then have "aggregateResistance r (map (\<lambda>r. (rzone r, r)) raw) =
             map (\<lambda>r. (rzone r, r)) raw @ [(rzone r, r)]"
    by (rule aggregateResistance_fresh)
  then show ?case by (simp add: IH)
qed

subsection \<open>Canonical strings\<close>

lemma digit_range: "0 \<le> d \<Longrightarrow> d < 10 \<Longrightarrow> d \<in> {0, 1, 2, 3, 4, 5, 6, 7, 8, 9 :: int}"
  by (simp only: insert_iff empty_iff) presburger

lemma is_digit_digit: "0 \<le> d \<Longrightarrow> d < 10 \<Longrightarrow> is_digit (digit d)"
  using digit_range [of d] by (auto simp: digit_def is_digit_def)

lemma digit_val_digit: "0 \<le> d \<Longrightarrow> d < 10 \<Longrightarrow> digit_val (digit d) = d"
  using digit_range [of d] by (auto simp: digit_def digit_val_def)

lemma parse_int_snoc: "parse_int (xs @ [c]) = 10 * parse_int xs + digit_val c"
  by (simp add: parse_int_def)

lemma digits_props:
  "0 \<le> n \<Longrightarrow> (\<forall>c\<in>set (digits n). is_digit c) \<and> parse_int (digits n) = n \<and> digits n \<noteq> []"
proof (induction n rule: digits.induct)
  case (1 n)
  show ?case
  proof (cases "n < 10")
    case True
    with "1.prems" show ?thesis
      by (subst (1 2 3) digits.simps)
         (simp add: is_digit_digit digit_val_digit parse_int_def)
  next
    case False
    then have "0 \<le> n div 10" by simp
    with "1.IH" False have IH: "(\<forall>c\<in>set (digits (n div 10)). is_digit c) \<and>
        parse_int (digits (n div 10)) = n div 10 \<and> digits (n div 10) \<noteq> []" by simp
    have m: "0 \<le> n mod 10" "n mod 10 < 10" by simp_all
    from False IH m show ?thesis
      by (subst (1 2 3) digits.simps)
         (simp add: is_digit_digit digit_val_digit parse_int_snoc)
  qed
qed

lemma not_digit_point: "\<not> is_digit CHR ''.''" "\<not> is_digit CHR ''-''"
  by (simp_all add: is_digit_def)

lemma parseFloat_toFixed2:
  assumes "0 \<le> x"
  shows "parseFloat (toFixed2 x) = of_int (round (x * 100)) / 100"
proof -
  define n where "n = round (x * 100)"
  define q where "q = digits (n div 100)"
  define f where "f = [digit (n div 10 mod 10), digit (n mod 10)]"
  from assms have n0: "0 \<le> n" by (simp add: n_def round_def)
  then have q: "\<forall>c\<in>set q. is_digit c" "parse_int q = n div 100" "q \<noteq> []"
    using digits_props [of "n div 100"] by (simp_all add: q_def)
  have fd: "\<forall>c\<in>set f. is_digit c"
    by (simp add: f_def is_digit_digit)
  have fv: "parse_int f = 10 * (n div 10 mod 10) + n mod 10"
    by (simp add: f_def parse_int_def digit_val_digit)
  have s: "toFixed2 x = q @ CHR ''.'' # f"
    using assms by (simp add: toFixed2_def n_def q_def f_def Let_def)
  from q obtain c cs where qc: "q = c # cs" by (cases q) auto
  with q(1) have "c \<noteq> CHR ''-''" using not_digit_point(2) by auto
  then have neg: "take 1 (toFixed2 x) \<noteq> ''-''" by (simp add: s qc)
  have tw: "takeWhile is_digit (q @ CHR ''.'' # f) = q"
    using q(1) by (simp add: takeWhile_append2 not_digit_point)
  have dw: "dropWhile is_digit (q @ CHR ''.'' # f) = CHR ''.'' # f"
    using q(1) by (simp add: dropWhile_append2 not_digit_point)
  have tf: "takeWhile is_digit f = f"
    using fd by (simp add: takeWhile_eq_all_conv)
  have len: "length f = 2" by (simp add: f_def)
  have "parseFloat (toFixed2 x) = of_int (n div 100) + of_int (10 * (n div 10 mod 10) + n mod 10) / 100"
  proof -
    have "parseFloat (q @ CHR ''.'' # f) =
          of_int (parse_int q) + of_int (parse_int f) / 10 ^ length f"
      using neg unfolding s by (simp add: parseFloat_def Let_def tw dw tf)
    then show ?thesis by (simp add: s q fv len)
  qed
  also have "10 * (n div 10 mod 10) + n mod 10 = n mod 100"
  proof -
    have "0 \<le> (10::int)" by simp
    then have "n mod (10 * 10) = 10 * (n div 10 mod 10) + n mod 10"
      by (rule zmod_zmult2_eq)
    then show ?thesis by simp
  qed
  also have "(of_int (n div 100) :: rat) + of_int (n mod 100) / 100 = of_int n / 100"
  proof -
    have "n = 100 * (n div 100) + n mod 100" by simp
    then have "(of_int n :: rat) = 100 * of_int (n div 100) + of_int (n mod 100)"
      by (metis of_int_add of_int_mult of_int_numeral)
    then show ?thesis by (simp add: field_simps)
  qed
  finally show ?thesis by (simp add: n_def)
qed


lemma round_eq_close:
  fixes a b :: rat
  assumes "round a = round b"
  shows "\<bar>a - b\<bar> < 1"
proof -
  have "of_int (round a) \<le> a + 1 / 2" "a + 1 / 2 < of_int (round a) + 1"
    unfolding round_def by linarith+
  moreover have "of_int (round b) \<le> b + 1 / 2" "b + 1 / 2 < of_int (round b) + 1"
    unfolding round_def by linarith+
  ultimately show ?thesis using assms by simp
qed

lemma toFixed2_eq_close:
  assumes "0 \<le> x" "0 \<le> y" "toFixed2 x = toFixed2 y"
  shows "\<bar>x - y\<bar> < 1 / 100"
proof -
  from assms have "(of_int (round (x * 100)) :: rat) / 100 = of_int (round (y * 100)) / 100"
    by (metis parseFloat_toFixed2)
  then have "round (x * 100) = round (y * 100)" by simp
  then have "\<bar>x * 100 - y * 100\<bar> < 1" by (rule round_eq_close)
  then show ?thesis by (simp add: abs_if split: if_splits)
qed

subsection \<open>The level scanner\<close>

lemma scanLevels_support_indices:
  "\<exists>js. (\<forall>i\<in>set js. i < length pd \<and> \<not> lp (pd ! i) < minValidPrice pd \<and>
                       3 \<le> countBounces pd i) \<and>
        supportZones (scanLevels pd) = map (supportRecord pd) js"
  using scanLevels_support_trace [of pd] unfolding support_trace_def by blast

lemma scanLevels_resistance_indices:
  "\<exists>js. (\<forall>i\<in>set js. i < length pd \<and> \<not> lp (pd ! i) < minValidPrice pd \<and>
                       3 \<le> countDrops pd i) \<and>
        resistanceZones (scanLevels pd) = map (resistanceRecord pd) js"
  using scanLevels_resistance_trace [of pd] unfolding resistance_trace_def by blast



text \<open>
  C9. A base index among the last four observations (\<open>i + 4 \<ge> n\<close>) has a bounce counter
  and a drop counter below 3, and every raw support or resistance record belongs to a
  base index that has more than four observations from it to the end (\<open>i + 4 < n\<close>).
\<close>

theorem end_of_series_truncation:
  "(length pd \<le> i + 4 \<longrightarrow> countBounces pd i < 3 \<and> countDrops pd i < 3) \<and>
   (\<exists>js. (\<forall>b\<in>set js. b + 4 < length pd) \<and>
         supportZones (scanLevels pd) = map (supportRecord pd) js) \<and>
   (\<exists>js. (\<forall>b\<in>set js. b + 4 < length pd) \<and>
         resistanceZones (scanLevels pd) = map (resistanceRecord pd) js)"
proof (intro conjI impI)
  assume "length pd \<le> i + 4"
  then show "countBounces pd i < 3" using countBounces_le [of pd i] by simp
next
  assume "length pd \<le> i + 4"
  then show "countDrops pd i < 3" using countDrops_le [of pd i] by simp
next
  from scanLevels_support_indices [of pd] obtain js where
    js: "\<forall>i\<in>set js. 3 \<le> countBounces pd i"
        "supportZones (scanLevels pd) = map (supportRecord pd) js" by blast
  have "\<forall>b\<in>set js. b + 4 < length pd"
  proof
    fix b assume "b \<in> set js"
    with js(1) have "3 \<le> countBounces pd b" by simp
    with countBounces_le [of pd b] show "b + 4 < length pd" by simp
  qed
  with js(2) show "\<exists>js. (\<forall>b\<in>set js. b + 4 < length pd) \<and>
         supportZones (scanLevels pd) = map (supportRecord pd) js" by blast
next
  from scanLevels_resistance_indices [of pd] obtain js where
    js: "\<forall>i\<in>set js. 3 \<le> countDrops pd i"
        "resistanceZones (scanLevels pd) = map (resistanceRecord pd) js" by blast
  have "\<forall>b\<in>set js. b + 4 < length pd"
  proof
    fix b assume "b \<in> set js"
    with js(1) have "3 \<le> countDrops pd b" by simp
    with countDrops_le [of pd b] show "b + 4 < length pd" by simp
  qed
  with js(2) show "\<exists>js. (\<forall>b\<in>set js. b + 4 < length pd) \<and>
         resistanceZones (scanLevels pd) = map (resistanceRecord pd) js" by blast
qed

theorem end_of_series_truncation_witness:
  "length series_A \<le> 1 + 4 \<and> countBounces series_A 1 < 3 \<and> countDrops series_A 1 < 3 \<and>
   supportZones (scanLevels series_A) = map (supportRecord series_A) [0] \<and>
   0 + 4 < length series_A"
proof -
  have l: "length series_A \<le> 1 + 4" by (simp add: series_A_def observations_def)
  with end_of_series_truncation [of series_A 1]
  have "countBounces series_A 1 < 3 \<and> countDrops series_A 1 < 3" by blast
  moreover have "supportZones (scanLevels series_A) = map (supportRecord series_A) [0]"
    by code_simp
  moreover have "0 + 4 < length series_A" by (simp add: series_A_def observations_def)
  ultimately show ?thesis using l by blast
qed

lemma aggregatedSupportZones_set:
  "set (aggregatedSupportZones raw) = supportGroup raw ` zone ` set raw"
proof -
  define m where "m = fold aggregateSupport raw []"
  have g: "support_groups raw m" unfolding m_def by (rule support_groups_fold)
  then have v: "a = supportGroup raw k" if "(k, a) \<in> set m" for k a
    using that by (auto simp: support_groups_def)
  have "snd ` set m = supportGroup raw ` fst ` set m"
  proof (intro set_eqI iffI)
    fix a assume "a \<in> snd ` set m"
    then obtain k where k: "(k, a) \<in> set m" by force
    then have "k \<in> fst ` set m" by force
    with v [OF k] show "a \<in> supportGroup raw ` fst ` set m" by blast
  next
    fix a assume "a \<in> supportGroup raw ` fst ` set m"
    then obtain k b where k: "(k, b) \<in> set m" and a: "a = supportGroup raw k" by force
    from v [OF k] a have "a = b" by simp
    with k show "a \<in> snd ` set m" by force
  qed
  with g show ?thesis
    by (simp add: aggregatedSupportZones_def m_def [symmetric] support_groups_def)
qed

lemma aggregatedResistanceZones_set:
  "set (aggregatedResistanceZones raw) = resistanceGroup raw ` rzone ` set raw"
proof -
  define m where "m = fold aggregateResistance raw []"
  have g: "resistance_groups raw m" unfolding m_def by (rule resistance_groups_fold)
  then have v: "a = resistanceGroup raw k" if "(k, a) \<in> set m" for k a
    using that by (auto simp: resistance_groups_def)
  have "snd ` set m = resistanceGroup raw ` fst ` set m"
  proof (intro set_eqI iffI)
    fix a assume "a \<in> snd ` set m"
    then obtain k where k: "(k, a) \<in> set m" by force
    then have "k \<in> fst ` set m" by force
    with v [OF k] show "a \<in> resistanceGroup raw ` fst ` set m" by blast
  next
    fix a assume "a \<in> resistanceGroup raw ` fst ` set m"
    then obtain k b where k: "(k, b) \<in> set m" and a: "a = resistanceGroup raw k" by force
    from v [OF k] a have "a = b" by simp
    with k show "a \<in> snd ` set m" by force
  qed
  with g show ?thesis
    by (simp add: aggregatedResistanceZones_def m_def [symmetric] resistance_groups_def)
qed

lemma zone_supportGroup [simp]: "zone (supportGroup raw k) = k"
  by (simp add: supportGroup_def)

lemma rzone_resistanceGroup [simp]: "rzone (resistanceGroup raw k) = k"
  by (simp add: resistanceGroup_def)

lemma aggregatedSupportZones_zone:
  "a \<in> set (aggregatedSupportZones raw) \<Longrightarrow> zone a \<in> zone ` set raw"
  by (auto simp: aggregatedSupportZones_set)

lemma aggregatedResistanceZones_rzone:
  "a \<in> set (aggregatedResistanceZones raw) \<Longrightarrow> rzone a \<in> rzone ` set raw"
  by (auto simp: aggregatedResistanceZones_set)

lemma findSupportLevels_Inr:
  "findSupportLevels pd = Inr res \<Longrightarrow>
     pd \<noteq> [] \<and>
     out_supportZones res = aggregatedSupportZones (supportZones (scanLevels pd)) \<and>
     out_resistanceZones res = aggregatedResistanceZones (resistanceZones (scanLevels pd)) \<and>
     out_highlightedZones res = highlightedZones (out_supportZones res) (out_resistanceZones res)"
  by (auto simp: findSupportLevels_def Let_def split: if_splits)

text \<open>
  C6. Every raw support record and every raw resistance record belongs to a base index
  whose price is not below half of the last observation's price, and so the string of
  every returned support or resistance zone is the canonical string of such a price.
\<close>

theorem ancient_zone_filter:
  "(\<exists>js. (\<forall>b\<in>set js. b < length pd \<and> lp (last pd) * (1 / 2) \<le> lp (pd ! b)) \<and>
         supportZones (scanLevels pd) = map (supportRecord pd) js) \<and>
   (\<exists>js. (\<forall>b\<in>set js. b < length pd \<and> lp (last pd) * (1 / 2) \<le> lp (pd ! b)) \<and>
         resistanceZones (scanLevels pd) = map (resistanceRecord pd) js) \<and>
   (\<forall>res. findSupportLevels pd = Inr res \<longrightarrow>
      (\<forall>a\<in>set (out_supportZones res).
          \<exists>b<length pd. lp (last pd) * (1 / 2) \<le> lp (pd ! b) \<and> zone a = toFixed2 (lp (pd ! b))) \<and>
      (\<forall>a\<in>set (out_resistanceZones res).
          \<exists>b<length pd. lp (last pd) * (1 / 2) \<le> lp (pd ! b) \<and> rzone a = toFixed2 (lp (pd ! b))))"
proof -
  from scanLevels_support_indices [of pd] obtain js where
    js: "\<forall>b\<in>set js. b < length pd \<and> lp (last pd) * (1 / 2) \<le> lp (pd ! b)"
        "supportZones (scanLevels pd) = map (supportRecord pd) js"
    by (auto simp: minValidPrice_def not_less)
  from scanLevels_resistance_indices [of pd] obtain ks where
    ks: "\<forall>b\<in>set ks. b < length pd \<and> lp (last pd) * (1 / 2) \<le> lp (pd ! b)"
        "resistanceZones (scanLevels pd) = map (resistanceRecord pd) ks"
    by (auto simp: minValidPrice_def not_less)
  have s: "\<exists>b<length pd. lp (last pd) * (1 / 2) \<le> lp (pd ! b) \<and> zone a = toFixed2 (lp (pd ! b))"
    if "a \<in> set (aggregatedSupportZones (supportZones (scanLevels pd)))" for a
  proof -
    from that have "zone a \<in> zone ` set (supportZones (scanLevels pd))"
      by (rule aggregatedSupportZones_zone)
    then have "zone a \<in> zone ` set (map (supportRecord pd) js)"
      by (simp only: js(2))
    then obtain b where "b \<in> set js" "zone a = zone (supportRecord pd b)" by auto
    with js(1) show ?thesis by (auto simp: supportRecord_def)
  qed
  have r: "\<exists>b<length pd. lp (last pd) * (1 / 2) \<le> lp (pd ! b) \<and> rzone a = toFixed2 (lp (pd ! b))"
    if "a \<in> set (aggregatedResistanceZones (resistanceZones (scanLevels pd)))" for a
  proof -
    from that have "rzone a \<in> rzone ` set (resistanceZones (scanLevels pd))"
      by (rule aggregatedResistanceZones_rzone)
    then have "rzone a \<in> rzone ` set (map (resistanceRecord pd) ks)"
      by (simp only: ks(2))
    then obtain b where "b \<in> set ks" "rzone a = rzone (resistanceRecord pd b)" by auto
    with ks(1) show ?thesis by (auto simp: resistanceRecord_def)
  qed
  have "\<forall>res. findSupportLevels pd = Inr res \<longrightarrow>
      (\<forall>a\<in>set (out_supportZones res).
          \<exists>b<length pd. lp (last pd) * (1 / 2) \<le> lp (pd ! b) \<and> zone a = toFixed2 (lp (pd ! b))) \<and>
      (\<forall>a\<in>set (out_resistanceZones res).
          \<exists>b<length pd. lp (last pd) * (1 / 2) \<le> lp (pd ! b) \<and> rzone a = toFixed2 (lp (pd ! b)))"
  proof (intro allI impI)
    fix res assume "findSupportLevels pd = Inr res"
    then have o: "out_supportZones res = aggregatedSupportZones (supportZones (scanLevels pd))"
      "out_resistanceZones res = aggregatedResistanceZones (resistanceZones (scanLevels pd))"
      by (simp_all add: findSupportLevels_Inr)
    show "(\<forall>a\<in>set (out_supportZones res).
          \<exists>b<length pd. lp (last pd) * (1 / 2) \<le> lp (pd ! b) \<and> zone a = toFixed2 (lp (pd ! b))) \<and>
      (\<forall>a\<in>set (out_resistanceZones res).
          \<exists>b<length pd. lp (last pd) * (1 / 2) \<le> lp (pd ! b) \<and> rzone a = toFixed2 (lp (pd ! b)))"
      unfolding o using s r by blast
  qed
  with js ks show ?thesis by blast
qed

theorem ancient_zone_filter_witness:
  "findSupportLevels series_B =
     Inr \<lparr>out_supportZones =
            [\<lparr>zone = ''100.00'', bounceCount = 3, confirmedResistance = True\<rparr>],
          out_resistanceZones = [], out_highlightedZones = []\<rparr> \<and>
   (\<exists>b<length series_B. lp (last series_B) * (1 / 2) \<le> lp (series_B ! b) \<and>
       ''100.00'' = toFixed2 (lp (series_B ! b)))"
proof -
  have e: "findSupportLevels series_B =
     Inr \<lparr>out_supportZones =
            [\<lparr>zone = ''100.00'', bounceCount = 3, confirmedResistance = True\<rparr>],
          out_resistanceZones = [], out_highlightedZones = []\<rparr>" by code_simp
  from ancient_zone_filter [of series_B] e
  have "\<forall>a\<in>set [\<lparr>zone = ''100.00'', bounceCount = 3, confirmedResistance = True\<rparr>].
          \<exists>b<length series_B. lp (last series_B) * (1 / 2) \<le> lp (series_B ! b) \<and>
             zone a = toFixed2 (lp (series_B ! b))"
    by (metis zones_result.select_convs(1))
  then have "\<exists>b<length series_B. lp (last series_B) * (1 / 2) \<le> lp (series_B ! b) \<and>
       ''100.00'' = toFixed2 (lp (series_B ! b))" by simp
  with e show ?thesis by (rule conjI)
qed





subsection \<open>The aggregator\<close>

lemma distinct_map_sort_key: "distinct (map g (sort_key f xs)) = distinct (map g xs)"
  by (simp add: distinct_map)

lemma aggregatedSupportZones_distinct: "distinct (map zone (aggregatedSupportZones raw))"
proof -
  have g: "support_groups raw (fold aggregateSupport raw [])" by (rule support_groups_fold)
  then have "map zone (map snd (fold aggregateSupport raw [])) = map fst (fold aggregateSupport raw [])"
    by (rule aggregateSupport_zone)
  moreover from g have "distinct (map fst (fold aggregateSupport raw []))"
    by (simp add: support_groups_def)
  ultimately have "distinct (map zone (map snd (fold aggregateSupport raw [])))"
    by (simp only:)
  then show ?thesis
    unfolding aggregatedSupportZones_def by (simp only: distinct_map_sort_key)
qed

lemma aggregateResistance_rzone:
  "resistance_groups raw m \<Longrightarrow> map rzone (map snd m) = map fst m"
  by (auto simp: resistance_groups_def resistanceGroup_def)

lemma aggregatedResistanceZones_distinct: "distinct (map rzone (aggregatedResistanceZones raw))"
proof -
  have g: "resistance_groups raw (fold aggregateResistance raw [])"
    by (rule resistance_groups_fold)
  then have "map rzone (map snd (fold aggregateResistance raw [])) =
             map fst (fold aggregateResistance raw [])"
    by (rule aggregateResistance_rzone)
  moreover from g have "distinct (map fst (fold aggregateResistance raw []))"
    by (simp add: resistance_groups_def)
  ultimately have "distinct (map rzone (map snd (fold aggregateResistance raw [])))"
    by (simp only:)
  then show ?thesis
    unfolding aggregatedResistanceZones_def by (simp only: distinct_map_sort_key)
qed

lemma aggregatedSupportZones_group:
  assumes "a \<in> set (aggregatedSupportZones raw)"
  shows "a = supportGroup raw (zone a)"
proof -
  from assms obtain k where "a = supportGroup raw k"
    by (auto simp: aggregatedSupportZones_set)
  then show ?thesis by simp
qed

lemma aggregatedResistanceZones_group:
  assumes "a \<in> set (aggregatedResistanceZones raw)"
  shows "a = resistanceGroup raw (rzone a)"
proof -
  from assms obtain k where "a = resistanceGroup raw k"
    by (auto simp: aggregatedResistanceZones_set)
  then show ?thesis by simp
qed

lemma aggregatedSupportZones_zones:
  "zone ` set (aggregatedSupportZones raw) = zone ` set raw"
  by (simp add: aggregatedSupportZones_set image_image)

lemma aggregatedResistanceZones_rzones:
  "rzone ` set (aggregatedResistanceZones raw) = rzone ` set raw"
  by (simp add: aggregatedResistanceZones_set image_image)

lemma toFixed2_round_cong:
  "0 \<le> x \<Longrightarrow> 0 \<le> y \<Longrightarrow> round (x * 100) = round (y * 100) \<Longrightarrow> toFixed2 x = toFixed2 y"
  by (simp add: toFixed2_def)

lemma parseFloat_canonical_inj:
  assumes "0 \<le> x" "0 \<le> y" "parseFloat (toFixed2 x) = parseFloat (toFixed2 y)"
  shows "toFixed2 x = toFixed2 y"
proof -
  from assms have "(of_int (round (x * 100)) :: rat) / 100 = of_int (round (y * 100)) / 100"
    by (simp add: parseFloat_toFixed2)
  then have "round (x * 100) = round (y * 100)" by simp
  with assms(1,2) show ?thesis by (rule toFixed2_round_cong)
qed

lemma parseFloat_inj_on_canonical: "\<forall>z\<in>Z. canonical z \<Longrightarrow> inj_on parseFloat Z"
  unfolding inj_on_def canonical_def by (metis parseFloat_canonical_inj)

lemma strict_sorted_sort_key:
  assumes "distinct (map g xs)" "inj_on p (g ` set xs)"
  shows "sorted_wrt (<) (map (\<lambda>a. p (g a)) (sort_key (\<lambda>a. p (g a)) xs))"
proof -
  let ?ys = "sort_key (\<lambda>a. p (g a)) xs"
  have "distinct (map g ?ys)" using assms(1) by (simp only: distinct_map_sort_key)
  moreover have "inj_on p (set (map g ?ys))" using assms(2) by simp
  ultimately have "distinct (map p (map g ?ys))" by (simp only: distinct_map)
  then have "distinct (map (\<lambda>a. p (g a)) ?ys)" by (simp add: comp_def)
  moreover have "sorted (map (\<lambda>a. p (g a)) ?ys)" by (rule sorted_sort_key)
  ultimately show ?thesis by (simp add: strict_sorted_iff)
qed

lemma raw_support_canonical:
  assumes "\<forall>ob\<in>set pd. 0 \<le> lp ob"
  shows "\<forall>z\<in>zone ` set (supportZones (scanLevels pd)). canonical z"
proof -
  from scanLevels_support_indices [of pd] obtain js where
    js: "\<forall>b\<in>set js. b < length pd" "supportZones (scanLevels pd) = map (supportRecord pd) js"
    by blast
  show ?thesis
  proof
    fix z assume "z \<in> zone ` set (supportZones (scanLevels pd))"
    with js(2) obtain b where b: "b \<in> set js" "z = toFixed2 (lp (pd ! b))"
      by (auto simp: supportRecord_def)
    with js(1) have "pd ! b \<in> set pd" by simp
    with assms have "0 \<le> lp (pd ! b)" by blast
    with b(2) show "canonical z" unfolding canonical_def by blast
  qed
qed

lemma raw_resistance_canonical:
  assumes "\<forall>ob\<in>set pd. 0 \<le> lp ob"
  shows "\<forall>z\<in>rzone ` set (resistanceZones (scanLevels pd)). canonical z"
proof -
  from scanLevels_resistance_indices [of pd] obtain js where
    js: "\<forall>b\<in>set js. b < length pd"
        "resistanceZones (scanLevels pd) = map (resistanceRecord pd) js"
    by blast
  show ?thesis
  proof
    fix z assume "z \<in> rzone ` set (resistanceZones (scanLevels pd))"
    with js(2) obtain b where b: "b \<in> set js" "z = toFixed2 (lp (pd ! b))"
      by (auto simp: resistanceRecord_def)
    with js(1) have "pd ! b \<in> set pd" by simp
    with assms have "0 \<le> lp (pd ! b)" by blast
    with b(2) show "canonical z" unfolding canonical_def by blast
  qed
qed

lemma aggregatedSupportZones_strict:
  assumes "\<forall>z\<in>zone ` set raw. canonical z"
  shows "sorted_wrt (<) (map (\<lambda>a. parseFloat (zone a)) (aggregatedSupportZones raw))"
proof -
  let ?xs = "map snd (fold aggregateSupport raw [])"
  have g: "support_groups raw (fold aggregateSupport raw [])" by (rule support_groups_fold)
  then have k: "map zone ?xs = map fst (fold aggregateSupport raw [])"
    by (rule aggregateSupport_zone)
  from g have "distinct (map fst (fold aggregateSupport raw []))"
    by (simp add: support_groups_def)
  then have d: "distinct (map zone ?xs)" by (simp only: k)
  from k g have "zone ` set ?xs = zone ` set raw"
    by (metis list.set_map support_groups_def)
  with assms have "inj_on parseFloat (zone ` set ?xs)"
    by (simp add: parseFloat_inj_on_canonical)
  with d show ?thesis
    unfolding aggregatedSupportZones_def by (rule strict_sorted_sort_key)
qed

lemma aggregatedResistanceZones_strict:
  assumes "\<forall>z\<in>rzone ` set raw. canonical z"
  shows "sorted_wrt (<) (map (\<lambda>a. parseFloat (rzone a)) (aggregatedResistanceZones raw))"
proof -
  let ?xs = "map snd (fold aggregateResistance raw [])"
  have g: "resistance_groups raw (fold aggregateResistance raw [])"
    by (rule resistance_groups_fold)
  then have k: "map rzone ?xs = map fst (fold aggregateResistance raw [])"
    by (rule aggregateResistance_rzone)
  from g have "distinct (map fst (fold aggregateResistance raw []))"
    by (simp add: resistance_groups_def)
  then have d: "distinct (map rzone ?xs)" by (simp only: k)
  from k g have "rzone ` set ?xs = rzone ` set raw"
    by (metis list.set_map resistance_groups_def)
  with assms have "inj_on parseFloat (rzone ` set ?xs)"
    by (simp add: parseFloat_inj_on_canonical)
  with d show ?thesis
    unfolding aggregatedResistanceZones_def by (rule strict_sorted_sort_key)
qed

text \<open>
  C5. On a series of non-negative prices, the returned support zones are the raw support
  records grouped by their canonical string: the bounce count of a returned zone is the
  sum of the bounce counts of the raw records with its string and its flag is the
  disjunction of their flags; the drop count of a returned resistance zone is the sum of
  the drop counts of the raw records with its string; the strings of the returned zones
  are the strings of the raw records, each once; and both returned lists are strictly
  ascending in the numeric value of the string.
\<close>

theorem aggregator_contract:
  assumes "findSupportLevels pd = Inr res" and "\<forall>ob\<in>set pd. 0 \<le> lp ob"
  shows "(\<forall>a\<in>set (out_supportZones res).
            bounceCount a =
              sum_list (map bounceCount
                (filter (\<lambda>s. zone s = zone a) (supportZones (scanLevels pd)))) \<and>
            confirmedResistance a =
              (\<exists>s\<in>set (supportZones (scanLevels pd)). zone s = zone a \<and> confirmedResistance s)) \<and>
         (\<forall>a\<in>set (out_resistanceZones res).
            dropCount a =
              sum_list (map dropCount
                (filter (\<lambda>r. rzone r = rzone a) (resistanceZones (scanLevels pd))))) \<and>
         zone ` set (out_supportZones res) = zone ` set (supportZones (scanLevels pd)) \<and>
         rzone ` set (out_resistanceZones res) = rzone ` set (resistanceZones (scanLevels pd)) \<and>
         distinct (map zone (out_supportZones res)) \<and>
         distinct (map rzone (out_resistanceZones res)) \<and>
         sorted_wrt (<) (map (\<lambda>a. parseFloat (zone a)) (out_supportZones res)) \<and>
         sorted_wrt (<) (map (\<lambda>a. parseFloat (rzone a)) (out_resistanceZones res))"
proof -
  let ?rawS = "supportZones (scanLevels pd)" and ?rawR = "resistanceZones (scanLevels pd)"
  from assms(1) have o: "out_supportZones res = aggregatedSupportZones ?rawS"
    "out_resistanceZones res = aggregatedResistanceZones ?rawR"
    by (simp_all add: findSupportLevels_Inr)
  have s: "bounceCount a = sum_list (map bounceCount (filter (\<lambda>s. zone s = zone a) ?rawS)) \<and>
           confirmedResistance a = (\<exists>s\<in>set ?rawS. zone s = zone a \<and> confirmedResistance s)"
    if "a \<in> set (aggregatedSupportZones ?rawS)" for a
  proof -
    from that have "a = supportGroup ?rawS (zone a)" by (rule aggregatedSupportZones_group)
    then have "bounceCount a = bounceCount (supportGroup ?rawS (zone a))"
      "confirmedResistance a = confirmedResistance (supportGroup ?rawS (zone a))" by simp_all
    then show ?thesis by (auto simp: supportGroup_def list_ex_iff)
  qed
  have r: "dropCount a = sum_list (map dropCount (filter (\<lambda>r. rzone r = rzone a) ?rawR))"
    if "a \<in> set (aggregatedResistanceZones ?rawR)" for a
  proof -
    from that have "a = resistanceGroup ?rawR (rzone a)" by (rule aggregatedResistanceZones_group)
    then have "dropCount a = dropCount (resistanceGroup ?rawR (rzone a))" by simp
    then show ?thesis by (simp add: resistanceGroup_def)
  qed
  show ?thesis
    unfolding o
  proof (intro conjI ballI)
    show "zone ` set (aggregatedSupportZones ?rawS) = zone ` set ?rawS"
      by (rule aggregatedSupportZones_zones)
    show "rzone ` set (aggregatedResistanceZones ?rawR) = rzone ` set ?rawR"
      by (rule aggregatedResistanceZones_rzones)
    show "distinct (map zone (aggregatedSupportZones ?rawS))"
      by (rule aggregatedSupportZones_distinct)
    show "distinct (map rzone (aggregatedResistanceZones ?rawR))"
      by (rule aggregatedResistanceZones_distinct)
    show "sorted_wrt (<) (map (\<lambda>a. parseFloat (zone a)) (aggregatedSupportZones ?rawS))"
      using raw_support_canonical [OF assms(2)] by (rule aggregatedSupportZones_strict)
    show "sorted_wrt (<) (map (\<lambda>a. parseFloat (rzone a)) (aggregatedResistanceZones ?rawR))"
      using raw_resistance_canonical [OF assms(2)] by (rule aggregatedResistanceZones_strict)
  qed (use s r in blast)+
qed

theorem aggregator_contract_witness:
  "findSupportLevels series_D =
     Inr \<lparr>out_supportZones = [\<lparr>zone = ''0.10'', bounceCount = 6, confirmedResistance = False\<rparr>],
          out_resistanceZones = [], out_highlightedZones = []\<rparr> \<and>
   supportZones (scanLevels series_D) =
     [\<lparr>zone = ''0.10'', bounceCount = 3, confirmedResistance = False\<rparr>,
      \<lparr>zone = ''0.10'', bounceCount = 3, confirmedResistance = False\<rparr>] \<and>
   (6::nat) = sum_list (map bounceCount
                (filter (\<lambda>s. zone s = ''0.10'') (supportZones (scanLevels series_D)))) \<and>
   zone ` set [\<lparr>zone = ''0.10'', bounceCount = 6, confirmedResistance = False\<rparr>] =
     zone ` set (supportZones (scanLevels series_D))"
proof -
  have sc: "scanLevels series_D =
     \<lparr>supportZones =
        [\<lparr>zone = ''0.10'', bounceCount = 3, confirmedResistance = False\<rparr>,
         \<lparr>zone = ''0.10'', bounceCount = 3, confirmedResistance = False\<rparr>],
      resistanceZones = [], checkedSupports = [96 / 1000, 104 / 1000],
      checkedResistances = []\<rparr>" by code_simp
  then have raw: "supportZones (scanLevels series_D) =
     [\<lparr>zone = ''0.10'', bounceCount = 3, confirmedResistance = False\<rparr>,
      \<lparr>zone = ''0.10'', bounceCount = 3, confirmedResistance = False\<rparr>]" by simp
  have ne: "series_D \<noteq> []" by (simp add: series_D_def observations_def)
  have a: "aggregatedSupportZones
      [\<lparr>zone = ''0.10'', bounceCount = 3, confirmedResistance = False\<rparr>,
       \<lparr>zone = ''0.10'', bounceCount = 3, confirmedResistance = False\<rparr>] =
      [\<lparr>zone = ''0.10'', bounceCount = 6, confirmedResistance = False\<rparr>]" by code_simp
  have b: "aggregatedResistanceZones [] = []" by code_simp
  have h: "highlightedZones
      [\<lparr>zone = ''0.10'', bounceCount = 6, confirmedResistance = False\<rparr>] [] = []"
    by code_simp
  have e: "findSupportLevels series_D =
     Inr \<lparr>out_supportZones = [\<lparr>zone = ''0.10'', bounceCount = 6, confirmedResistance = False\<rparr>],
          out_resistanceZones = [], out_highlightedZones = []\<rparr>"
    by (simp add: findSupportLevels_def ne sc a b h)
  have nn: "\<forall>ob\<in>set series_D. 0 \<le> lp ob"
    by (simp add: series_D_def observations_def)
  note w = aggregator_contract [OF e nn]
  from w have "\<forall>a\<in>set [\<lparr>zone = ''0.10'', bounceCount = 6, confirmedResistance = False\<rparr>].
      bounceCount a = sum_list (map bounceCount
                (filter (\<lambda>s. zone s = zone a) (supportZones (scanLevels series_D))))"
    by simp
  then have s: "(6::nat) = sum_list (map bounceCount
                (filter (\<lambda>s. zone s = ''0.10'') (supportZones (scanLevels series_D))))"
    by simp
  from w have z: "zone ` set [\<lparr>zone = ''0.10'', bounceCount = 6, confirmedResistance = False\<rparr>] =
     zone ` set (supportZones (scanLevels series_D))"
    by simp
  from e raw s z show ?thesis by (intro conjI)
qed

lemma close_ratio:
  fixes x y :: rat
  assumes "\<bar>x - y\<bar> < 1 / 100" "1 / 5 \<le> y"
  shows "js_lt (js_div \<bar>x - y\<bar> y) (5 / 100)"
proof -
  from assms(2) have y: "0 < y" by simp
  have "\<bar>x - y\<bar> < 5 / 100 * y" using assms by simp
  with y have "\<bar>x - y\<bar> / y < 5 / 100" by (simp add: pos_divide_less_eq)
  with y show ?thesis by simp
qed

lemma strict_sorted_pairs:
  "sorted_wrt (<) (js :: nat list) \<Longrightarrow> b \<in> set js \<Longrightarrow> b' \<in> set js \<Longrightarrow> b \<noteq> b' \<Longrightarrow>
   b < b' \<or> b' < b"
  by auto

lemma raw_support_distinct:
  assumes "\<forall>ob\<in>set pd. 1 / 5 \<le> lp ob"
  shows "distinct (map zone (supportZones (scanLevels pd)))"
proof -
  from scanLevels_support_trace [of pd] obtain js where
    t: "support_trace pd (minValidPrice pd) (length pd) js (scanLevels pd)" ..
  then have sorted: "sorted_wrt (<) js"
    and bound: "\<forall>i\<in>set js. i < length pd"
    and far: "\<forall>i\<in>set js. \<forall>i'\<in>set js. i' < i \<longrightarrow>
          \<not> js_lt (js_div \<bar>lp (pd ! i') - lp (pd ! i)\<bar> (lp (pd ! i))) (5 / 100)"
    and raw: "supportZones (scanLevels pd) = map (supportRecord pd) js"
    by (simp_all add: support_trace_def)
  have price: "1 / 5 \<le> lp (pd ! i)" if "i \<in> set js" for i
    using that bound assms by (metis nth_mem)
  have ne: "toFixed2 (lp (pd ! i')) \<noteq> toFixed2 (lp (pd ! i))"
    if "i \<in> set js" "i' \<in> set js" "i' < i" for i i'
  proof
    assume eq: "toFixed2 (lp (pd ! i')) = toFixed2 (lp (pd ! i))"
    from price [OF that(1)] price [OF that(2)]
    have nn: "0 \<le> lp (pd ! i)" "0 \<le> lp (pd ! i')" by simp_all
    have "\<bar>lp (pd ! i') - lp (pd ! i)\<bar> < 1 / 100"
      using nn(2) nn(1) eq by (rule toFixed2_eq_close)
    then have "js_lt (js_div \<bar>lp (pd ! i') - lp (pd ! i)\<bar> (lp (pd ! i))) (5 / 100)"
      using price [OF that(1)] by (rule close_ratio)
    with far that show False by blast
  qed
  have "inj_on (\<lambda>i. toFixed2 (lp (pd ! i))) (set js)"
  proof (rule inj_onI)
    fix i i' assume i: "i \<in> set js" "i' \<in> set js"
      and eq: "toFixed2 (lp (pd ! i)) = toFixed2 (lp (pd ! i'))"
    show "i = i'"
    proof (rule ccontr)
      assume "i \<noteq> i'"
      then consider "i < i'" | "i' < i" by linarith
      then show False
      proof cases
        case 1
        from ne [OF i(2) i(1) 1] eq show False by simp
      next
        case 2
        from ne [OF i(1) i(2) 2] eq show False by simp
      qed
    qed
  qed
  moreover from sorted have "distinct js" by (simp add: strict_sorted_iff)
  ultimately have "distinct (map (\<lambda>i. toFixed2 (lp (pd ! i))) js)"
    by (simp add: distinct_map)
  then show ?thesis by (simp add: raw supportRecord_def comp_def)
qed

lemma raw_resistance_distinct:
  assumes "\<forall>ob\<in>set pd. 1 / 5 \<le> lp ob"
  shows "distinct (map rzone (resistanceZones (scanLevels pd)))"
proof -
  from scanLevels_resistance_trace [of pd] obtain js where
    t: "resistance_trace pd (minValidPrice pd) (length pd) js (scanLevels pd)" ..
  then have sorted: "sorted_wrt (<) js"
    and bound: "\<forall>i\<in>set js. i < length pd"
    and far: "\<forall>i\<in>set js. \<forall>i'\<in>set js. i' < i \<longrightarrow>
          \<not> js_lt (js_div \<bar>lp (pd ! i') - lp (pd ! i)\<bar> (lp (pd ! i))) (5 / 100)"
    and raw: "resistanceZones (scanLevels pd) = map (resistanceRecord pd) js"
    by (simp_all add: resistance_trace_def)
  have price: "1 / 5 \<le> lp (pd ! i)" if "i \<in> set js" for i
    using that bound assms by (metis nth_mem)
  have ne: "toFixed2 (lp (pd ! i')) \<noteq> toFixed2 (lp (pd ! i))"
    if "i \<in> set js" "i' \<in> set js" "i' < i" for i i'
  proof
    assume eq: "toFixed2 (lp (pd ! i')) = toFixed2 (lp (pd ! i))"
    from price [OF that(1)] price [OF that(2)]
    have nn: "0 \<le> lp (pd ! i)" "0 \<le> lp (pd ! i')" by simp_all
    have "\<bar>lp (pd ! i') - lp (pd ! i)\<bar> < 1 / 100"
      using nn(2) nn(1) eq by (rule toFixed2_eq_close)
    then have "js_lt (js_div \<bar>lp (pd ! i') - lp (pd ! i)\<bar> (lp (pd ! i))) (5 / 100)"
      using price [OF that(1)] by (rule close_ratio)
    with far that show False by blast
  qed
  have "inj_on (\<lambda>i. toFixed2 (lp (pd ! i))) (set js)"
  proof (rule inj_onI)
    fix i i' assume i: "i \<in> set js" "i' \<in> set js"
      and eq: "toFixed2 (lp (pd ! i)) = toFixed2 (lp (pd ! i'))"
    show "i = i'"
    proof (rule ccontr)
      assume "i \<noteq> i'"
      then consider "i < i'" | "i' < i" by linarith
      then show False
      proof cases
        case 1
        from ne [OF i(2) i(1) 1] eq show False by simp
      next
        case 2
        from ne [OF i(1) i(2) 2] eq show False by simp
      qed
    qed
  qed
  moreover from sorted have "distinct js" by (simp add: strict_sorted_iff)
  ultimately have "distinct (map (\<lambda>i. toFixed2 (lp (pd ! i))) js)"
    by (simp add: distinct_map)
  then show ?thesis by (simp add: raw resistanceRecord_def comp_def)
qed

text \<open>
  C10. On a series whose prices are all at least 0.2, no two raw support records and no
  two raw resistance records have the same canonical string; the aggregation then stores
  every raw record under a new key, never adding to an existing entry, and the returned
  lists are the raw lists sorted by the numeric value of the string.
\<close>

theorem aggregation_vacuous_above_fifth:
  assumes "\<forall>ob\<in>set pd. 1 / 5 \<le> lp ob"
  shows "distinct (map zone (supportZones (scanLevels pd))) \<and>
         distinct (map rzone (resistanceZones (scanLevels pd))) \<and>
         fold aggregateSupport (supportZones (scanLevels pd)) [] =
           map (\<lambda>s. (zone s, s)) (supportZones (scanLevels pd)) \<and>
         fold aggregateResistance (resistanceZones (scanLevels pd)) [] =
           map (\<lambda>r. (rzone r, r)) (resistanceZones (scanLevels pd)) \<and>
         aggregatedSupportZones (supportZones (scanLevels pd)) =
           sort_key (\<lambda>a. parseFloat (zone a)) (supportZones (scanLevels pd)) \<and>
         aggregatedResistanceZones (resistanceZones (scanLevels pd)) =
           sort_key (\<lambda>a. parseFloat (rzone a)) (resistanceZones (scanLevels pd))"
proof -
  have ds: "distinct (map zone (supportZones (scanLevels pd)))"
    using assms by (rule raw_support_distinct)
  have dr: "distinct (map rzone (resistanceZones (scanLevels pd)))"
    using assms by (rule raw_resistance_distinct)
  have fs: "fold aggregateSupport (supportZones (scanLevels pd)) [] =
           map (\<lambda>s. (zone s, s)) (supportZones (scanLevels pd))"
    using ds by (rule fold_aggregateSupport_distinct)
  have fr: "fold aggregateResistance (resistanceZones (scanLevels pd)) [] =
           map (\<lambda>r. (rzone r, r)) (resistanceZones (scanLevels pd))"
    using dr by (rule fold_aggregateResistance_distinct)
  have "aggregatedSupportZones (supportZones (scanLevels pd)) =
           sort_key (\<lambda>a. parseFloat (zone a)) (supportZones (scanLevels pd))"
    unfolding aggregatedSupportZones_def fs by (simp add: comp_def)
  moreover have "aggregatedResistanceZones (resistanceZones (scanLevels pd)) =
           sort_key (\<lambda>a. parseFloat (rzone a)) (resistanceZones (scanLevels pd))"
    unfolding aggregatedResistanceZones_def fr by (simp add: comp_def)
  ultimately show ?thesis using ds dr fs fr by blast
qed

subsection \<open>The overlap matcher\<close>














lemma scanLevels_series_C:
  "scanLevels series_C =
     \<lparr>supportZones = [\<lparr>zone = ''100.00'', bounceCount = 3, confirmedResistance = False\<rparr>],
      resistanceZones = [\<lparr>rzone = ''99.00'', dropCount = 4\<rparr>],
      checkedSupports = [100], checkedResistances = [99]\<rparr>"
  by code_simp


text \<open>The example of the specification: a support at 100.00 and a resistance at 101.00.\<close>

lemma overlap_example:
  "highlightedZones
      [\<lparr>zone = ''100.00'', bounceCount = 3, confirmedResistance = False\<rparr>]
      [\<lparr>rzone = ''101.00'', dropCount = 2\<rparr>] =
      [\<lparr>hzone = ''100.00'', supportBounceCount = 3, resistanceDropCount = 2,
        type_tag = ''support-resistance overlap''\<rparr>]"
  by code_simp


theorem aggregation_vacuous_above_fifth_witness:
  "supportZones (scanLevels series_C) =
     [\<lparr>zone = ''100.00'', bounceCount = 3, confirmedResistance = False\<rparr>] \<and>
   resistanceZones (scanLevels series_C) = [\<lparr>rzone = ''99.00'', dropCount = 4\<rparr>] \<and>
   fold aggregateSupport (supportZones (scanLevels series_C)) [] =
     map (\<lambda>s. (zone s, s)) (supportZones (scanLevels series_C)) \<and>
   aggregatedSupportZones (supportZones (scanLevels series_C)) =
     sort_key (\<lambda>a. parseFloat (zone a)) (supportZones (scanLevels series_C)) \<and>
   aggregatedResistanceZones (resistanceZones (scanLevels series_C)) =
     sort_key (\<lambda>a. parseFloat (rzone a)) (resistanceZones (scanLevels series_C))"
proof -
  have h: "\<forall>ob\<in>set series_C. 1 / 5 \<le> lp ob"
    by (simp add: series_C_def observations_def)
  have s: "supportZones (scanLevels series_C) =
     [\<lparr>zone = ''100.00'', bounceCount = 3, confirmedResistance = False\<rparr>]"
    and r: "resistanceZones (scanLevels series_C) = [\<lparr>rzone = ''99.00'', dropCount = 4\<rparr>]"
    by (simp_all add: scanLevels_series_C)
  from aggregation_vacuous_above_fifth [OF h] s r show ?thesis by blast
qed

end
